theory Spec2Isabelle
  imports Main "HOL-Library.Word" "HOL-Library.Multiset" "HOL-Library.While_Combinator"
begin

section \<open>Machine integers\<close>

text \<open>
  Both programs declare every value as \<^verbatim>\<open>int\<close>: a 32-bit two's complement integer.
  Values are words of width 32, read through \<open>sint\<close>; \<open>-\<close> on words wraps around
  modulo \<open>2 ^ 32\<close>, and comparisons are the signed ones.
\<close>

type_synonym int32 = "32 word"

text \<open>\<^verbatim>\<open>abs\<close> on \<^verbatim>\<open>int\<close>: the negation wraps, so the most negative value is its own
  absolute value.\<close>

definition abs32 :: "int32 \<Rightarrow> int32" where
  "abs32 x = (if x <s 0 then - x else x)"

section \<open>The two-pointer sweep\<close>

text \<open>
  The state of the loop is the triple of the two indices and the counter, in the order
  \<open>(i, j, count)\<close>. The three start at 0 and grow by one at a time, \<open>i\<close> up to \<open>n\<close> and
  \<open>j\<close> up to \<open>m\<close>, so they are natural numbers. The vectors are lists; \<open>n\<close> and \<open>m\<close> are
  their lengths.
\<close>

type_synonym state = "nat \<times> nat \<times> nat"

text \<open>The loop test \<^verbatim>\<open>i < n && j < m\<close>, the same in both files.\<close>

fun loop_cond :: "int32 list \<Rightarrow> int32 list \<Rightarrow> state \<Rightarrow> bool" where
  "loop_cond a b (i, j, cnt) = (i < length a \<and> j < length b)"

text \<open>The loop body of \<^verbatim>\<open>src/Apartments_shot_1.cpp\<close> (lines 14 to 22).\<close>

fun body1 :: "int32 list \<Rightarrow> int32 list \<Rightarrow> int32 \<Rightarrow> state \<Rightarrow> state" where
  "body1 a b k (i, j, ans) =
     (if abs32 (a ! i - b ! j) \<le>s k then (i + 1, j + 1, ans + 1)
      else if k <s a ! i - b ! j then (i, j + 1, ans)
      else (i + 1, j, ans))"

text \<open>The loop body of \<^verbatim>\<open>src/temp/Apartments_shot_1.cpp\<close> (lines 28 to 36).\<close>

fun body2 :: "int32 list \<Rightarrow> int32 list \<Rightarrow> int32 \<Rightarrow> state \<Rightarrow> state" where
  "body2 applicants apartments k (i, j, cnt) =
     (if abs32 (applicants ! i - apartments ! j) \<le>s k then (i + 1, j + 1, cnt + 1)
      else if applicants ! i <s apartments ! j then (i + 1, j, cnt)
      else (i, j + 1, cnt))"

text \<open>The \<^verbatim>\<open>while\<close> loops. The body only runs under the loop test, so every read
  \<open>a ! i\<close> and \<open>b ! j\<close> is in range.\<close>

function loop1 :: "int32 list \<Rightarrow> int32 list \<Rightarrow> int32 \<Rightarrow> state \<Rightarrow> state" where
  "loop1 a b k s = (if loop_cond a b s then loop1 a b k (body1 a b k s) else s)"
  by pat_completeness auto
termination
  by (relation "measure (\<lambda>(a, b, k, i, j, ans). (length a - i) + (length b - j))") auto

function loop2 :: "int32 list \<Rightarrow> int32 list \<Rightarrow> int32 \<Rightarrow> state \<Rightarrow> state" where
  "loop2 a b k s = (if loop_cond a b s then loop2 a b k (body2 a b k s) else s)"
  by pat_completeness auto
termination
  by (relation "measure (\<lambda>(a, b, k, i, j, cnt). (length a - i) + (length b - j))") auto

text \<open>The number of times each loop runs its body.\<close>

function iters1 :: "int32 list \<Rightarrow> int32 list \<Rightarrow> int32 \<Rightarrow> state \<Rightarrow> nat" where
  "iters1 a b k s = (if loop_cond a b s then Suc (iters1 a b k (body1 a b k s)) else 0)"
  by pat_completeness auto
termination
  by (relation "measure (\<lambda>(a, b, k, i, j, ans). (length a - i) + (length b - j))") auto

function iters2 :: "int32 list \<Rightarrow> int32 list \<Rightarrow> int32 \<Rightarrow> state \<Rightarrow> nat" where
  "iters2 a b k s = (if loop_cond a b s then Suc (iters2 a b k (body2 a b k s)) else 0)"
  by pat_completeness auto
termination
  by (relation "measure (\<lambda>(a, b, k, i, j, cnt). (length a - i) + (length b - j))") auto

text \<open>\<^verbatim>\<open>std::sort\<close> on a vector of \<^verbatim>\<open>int\<close>: ascending in the signed order.\<close>

definition sort32 :: "int32 list \<Rightarrow> int32 list" where
  "sort32 xs = sort_key sint xs"

text \<open>The state with which both loops start.\<close>

definition init :: state where
  "init = (0, 0, 0)"

text \<open>The counter of a state, which is what the programs print.\<close>

fun result :: "state \<Rightarrow> nat" where
  "result (i, j, cnt) = cnt"

text \<open>\<^verbatim>\<open>main\<close> of \<^verbatim>\<open>src/Apartments_shot_1.cpp\<close> and of
  \<^verbatim>\<open>src/temp/Apartments_shot_1.cpp\<close>, as functions from the input that was read (the
  \<open>n\<close> applicant values, the \<open>m\<close> apartment values and \<open>k\<close>) to the number printed.\<close>

definition main1 :: "int32 list \<Rightarrow> int32 list \<Rightarrow> int32 \<Rightarrow> nat" where
  "main1 a b k = result (loop1 (sort32 a) (sort32 b) k init)"

definition main2 :: "int32 list \<Rightarrow> int32 list \<Rightarrow> int32 \<Rightarrow> nat" where
  "main2 applicants apartments k = result (loop2 (sort32 applicants) (sort32 apartments) k init)"

section \<open>Specification\<close>

text \<open>
  An input has no overflow when, for every applicant value \<open>x\<close> and every apartment
  value \<open>y\<close>, the exact difference \<open>x - y\<close> lies strictly between \<open>- 2 ^ 31\<close> and
  \<open>2 ^ 31\<close>: the subtraction does not wrap and \<^verbatim>\<open>abs\<close> never meets the most negative
  value.
\<close>

definition no_overflow :: "int32 list \<Rightarrow> int32 list \<Rightarrow> bool" where
  "no_overflow a b = list_all (\<lambda>x. list_all (\<lambda>y. \<bar>sint x - sint y\<bar> < 2 ^ 31) b) a"

text \<open>The range \<open>[- 2 ^ 30, 2 ^ 30 - 1]\<close> of values.\<close>

definition in_range30 :: "int32 \<Rightarrow> bool" where
  "in_range30 x = (- (2 ^ 30) \<le> sint x \<and> sint x \<le> 2 ^ 30 - 1)"

text \<open>
  A matching of the input \<open>a\<close>, \<open>b\<close>, \<open>k\<close> is a set of pairs \<open>(p, q)\<close> of an applicant
  (a position \<open>p\<close> of \<open>a\<close>) and an apartment (a position \<open>q\<close> of \<open>b\<close>), as the values
  were given, in which the two values of every pair differ by at most \<open>k\<close> as
  mathematical integers, and no applicant and no apartment is in two pairs.
\<close>

definition matching :: "int32 list \<Rightarrow> int32 list \<Rightarrow> int32 \<Rightarrow> (nat \<times> nat) set \<Rightarrow> bool" where
  "matching a b k M =
     (M \<subseteq> {..<length a} \<times> {..<length b} \<and> inj_on fst M \<and> inj_on snd M \<and>
      (\<forall>(p, q)\<in>M. \<bar>sint (a ! p) - sint (b ! q)\<bar> \<le> sint k))"

definition max_matching :: "int32 list \<Rightarrow> int32 list \<Rightarrow> int32 \<Rightarrow> nat" where
  "max_matching a b k = Max (card ` {M. matching a b k M})"

text \<open>The invariant of the loop, for vectors of \<open>n\<close> and \<open>m\<close> values.\<close>

fun bounded_inv :: "nat \<Rightarrow> nat \<Rightarrow> state \<Rightarrow> bool" where
  "bounded_inv n m (i, j, cnt) = (cnt \<le> min i j \<and> min i j \<le> min n m)"

text \<open>Progress from one state to the next: no index goes back and one of them grows.\<close>

fun advances :: "state \<Rightarrow> state \<Rightarrow> bool" where
  "advances (i, j, cnt) (i', j', cnt') = (i \<le> i' \<and> j \<le> j' \<and> i + j < i' + j')"

section \<open>The sweep on exact integers\<close>

text \<open>
  The loop of \<^verbatim>\<open>src/temp/Apartments_shot_1.cpp\<close> on the values that are left of each
  vector, with exact integers in place of machine integers. It is what the proofs of
  optimality reason about; \<open>loop2_sweep\<close> below relates it to the loop.
\<close>

fun sweep :: "int \<Rightarrow> int list \<Rightarrow> int list \<Rightarrow> nat" where
  "sweep k (x # xs) (y # ys) =
     (if \<bar>x - y\<bar> \<le> k then Suc (sweep k xs ys)
      else if x < y then sweep k xs (y # ys)
      else sweep k (x # xs) ys)"
| "sweep k [] ys = 0"
| "sweep k xs [] = 0"

text \<open>
  A pairing of two multisets of values: a multiset of pairs of values that differ by at
  most \<open>k\<close>, which uses every value at most as often as it occurs.
\<close>

definition pairing :: "int \<Rightarrow> int multiset \<Rightarrow> int multiset \<Rightarrow> (int \<times> int) multiset \<Rightarrow> bool" where
  "pairing k X Y P =
     (image_mset fst P \<subseteq># X \<and> image_mset snd P \<subseteq># Y \<and> (\<forall>p\<in>#P. \<bar>fst p - snd p\<bar> \<le> k))"

declare loop1.simps [simp del] loop2.simps [simp del] iters1.simps [simp del] iters2.simps [simp del]

section \<open>Pairings and the sweep on exact integers\<close>

lemma subset_add_notin: "M \<subseteq># add_mset x X \<Longrightarrow> x \<notin># M \<Longrightarrow> M \<subseteq># X"
  by (metis Diff_eq_empty_iff_mset minus_add_mset_if_not_in_lhs)

lemma pairing_empty_left: "pairing k {#} Y P \<Longrightarrow> P = {#}"
  by (simp add: pairing_def)

lemma pairing_empty_right: "pairing k X {#} P \<Longrightarrow> P = {#}"
  by (simp add: pairing_def)

lemma pairing_drop_left:
  assumes "pairing k (add_mset x X) Y P" and "\<forall>y\<in>#Y. \<not> \<bar>x - y\<bar> \<le> k"
  shows "pairing k X Y P"
proof -
  have "x \<notin># image_mset fst P"
  proof
    assume "x \<in># image_mset fst P"
    then obtain p where p: "p \<in># P" "fst p = x" by auto
    then have "snd p \<in># image_mset snd P" by auto
    with assms(1) have "snd p \<in># Y" unfolding pairing_def by (meson mset_subset_eqD)
    with assms(2) p assms(1) show False unfolding pairing_def by auto
  qed
  with assms(1) show ?thesis unfolding pairing_def by (auto intro: subset_add_notin)
qed

lemma pairing_drop_right:
  assumes "pairing k X (add_mset y Y) P" and "\<forall>x\<in>#X. \<not> \<bar>x - y\<bar> \<le> k"
  shows "pairing k X Y P"
proof -
  have "y \<notin># image_mset snd P"
  proof
    assume "y \<in># image_mset snd P"
    then obtain p where p: "p \<in># P" "snd p = y" by auto
    then have "fst p \<in># image_mset fst P" by auto
    with assms(1) have "fst p \<in># X" unfolding pairing_def by (meson mset_subset_eqD)
    with assms(2) p assms(1) show False unfolding pairing_def by auto
  qed
  with assms(1) show ?thesis unfolding pairing_def by (auto intro: subset_add_notin)
qed


lemma pairing_peel:
  assumes P: "pairing k (add_mset x X) (add_mset y Y) P"
    and x: "\<forall>x'\<in>#X. x \<le> x'" and y: "\<forall>y'\<in>#Y. y \<le> y'"
  shows "\<exists>P'. pairing k X Y P' \<and> size P \<le> Suc (size P')"
proof (cases "x \<in># image_mset fst P")
  case True
  then obtain p1 where p1: "p1 \<in># P" "fst p1 = x" by auto
  define P1 where "P1 = P - {#p1#}"
  have P_eq: "P = add_mset p1 P1" using p1 by (simp add: P1_def)
  have f1: "image_mset fst P1 \<subseteq># X"
    using P p1 unfolding pairing_def P_eq by simp
  have s1: "add_mset (snd p1) (image_mset snd P1) \<subseteq># add_mset y Y"
    using P unfolding pairing_def P_eq by simp
  have c1: "\<forall>p\<in>#P1. \<bar>fst p - snd p\<bar> \<le> k"
    using P unfolding pairing_def P_eq by simp
  show ?thesis
  proof (cases "y \<in># image_mset snd P1")
    case True
    then obtain p2 where p2: "p2 \<in># P1" "snd p2 = y" by auto
    define P2 where "P2 = P1 - {#p2#}"
    have P1_eq: "P1 = add_mset p2 P2" using p2 by (simp add: P2_def)
    let ?P' = "add_mset (fst p2, snd p1) P2"
    have "image_mset fst ?P' \<subseteq># X" using f1 unfolding P1_eq by simp
    moreover have s': "image_mset snd ?P' \<subseteq># Y"
      using s1 p2 unfolding P1_eq by (simp add: add_mset_commute)
    moreover have "\<forall>p\<in>#?P'. \<bar>fst p - snd p\<bar> \<le> k"
    proof -
      have "fst p2 \<in># X" using f1 unfolding P1_eq by (simp add: insert_subset_eq_iff)
      then have "x \<le> fst p2" using x by blast
      moreover have "snd p1 \<in># Y" using s' by (simp add: insert_subset_eq_iff)
      then have "y \<le> snd p1" using y by blast
      moreover have "\<bar>x - snd p1\<bar> \<le> k" using P p1 unfolding pairing_def by auto
      moreover have "\<bar>fst p2 - y\<bar> \<le> k" using c1 p2 by auto
      ultimately have "\<bar>fst p2 - snd p1\<bar> \<le> k" by linarith
      then show ?thesis using c1 unfolding P1_eq by simp
    qed
    moreover have "size P \<le> Suc (size ?P')" unfolding P_eq P1_eq by simp
    ultimately show ?thesis unfolding pairing_def by blast
  next
    case False
    have "image_mset snd P1 \<subseteq># add_mset y Y"
      using s1 by (meson mset_subset_eq_insertD subset_mset.less_imp_le)
    then have "image_mset snd P1 \<subseteq># Y" using False by (rule subset_add_notin)
    then have "pairing k X Y P1" using f1 c1 unfolding pairing_def by simp
    moreover have "size P \<le> Suc (size P1)" unfolding P_eq by simp
    ultimately show ?thesis by blast
  qed
next
  case False
  have f: "image_mset fst P \<subseteq># X"
    using P False unfolding pairing_def by (auto intro: subset_add_notin)
  show ?thesis
  proof (cases "y \<in># image_mset snd P")
    case True
    then obtain p where p: "p \<in># P" "snd p = y" by auto
    define P' where "P' = P - {#p#}"
    have P_eq: "P = add_mset p P'" using p by (simp add: P'_def)
    have "image_mset snd P' \<subseteq># Y" using P p unfolding pairing_def P_eq by simp
    moreover have "image_mset fst P' \<subseteq># X"
      using f unfolding P_eq by (simp, meson mset_subset_eq_insertD subset_mset.less_imp_le)
    moreover have "\<forall>p\<in>#P'. \<bar>fst p - snd p\<bar> \<le> k"
      using P unfolding pairing_def P_eq by simp
    moreover have "size P \<le> Suc (size P')" unfolding P_eq by simp
    ultimately show ?thesis unfolding pairing_def by blast
  next
    case False
    then have "image_mset snd P \<subseteq># Y"
      using P unfolding pairing_def by (auto intro: subset_add_notin)
    then have "pairing k X Y P" using f P unfolding pairing_def by simp
    then show ?thesis by auto
  qed
qed

lemma sweep_upper:
  "sorted xs \<Longrightarrow> sorted ys \<Longrightarrow> pairing k (mset xs) (mset ys) P \<Longrightarrow> size P \<le> sweep k xs ys"
proof (induction k xs ys arbitrary: P rule: sweep.induct)
  case (1 k x xs y ys)
  have sx: "sorted xs" "\<forall>x'\<in>set xs. x \<le> x'" and sy: "sorted ys" "\<forall>y'\<in>set ys. y \<le> y'"
    using "1.prems" by simp_all
  show ?case
  proof (cases "\<bar>x - y\<bar> \<le> k")
    case True
    obtain P' where P': "pairing k (mset xs) (mset ys) P'" "size P \<le> Suc (size P')"
      using pairing_peel [of k x "mset xs" y "mset ys" P] "1.prems"(3) sx sy by auto
    have "size P' \<le> sweep k xs ys" using "1.IH"(1) [OF True sx(1) sy(1) P'(1)] .
    then show ?thesis using True P'(2) by simp
  next
    case nomatch: False
    show ?thesis
    proof (cases "x < y")
      case True
      have "\<forall>y'\<in>#mset (y # ys). \<not> \<bar>x - y'\<bar> \<le> k" using nomatch True sy(2) by auto
      then have "pairing k (mset xs) (mset (y # ys)) P"
        using pairing_drop_left [of k x "mset xs" "mset (y # ys)" P] "1.prems"(3) by simp
      then have "size P \<le> sweep k xs (y # ys)"
        using "1.IH"(2) [OF nomatch True sx(1) "1.prems"(2)] by simp
      then show ?thesis using nomatch True by simp
    next
      case False
      have "\<forall>x'\<in>#mset (x # xs). \<not> \<bar>x' - y\<bar> \<le> k" using nomatch False sx(2) by auto
      then have "pairing k (mset (x # xs)) (mset ys) P"
        using pairing_drop_right [of k "mset (x # xs)" y "mset ys" P] "1.prems"(3) by simp
      then have "size P \<le> sweep k (x # xs) ys"
        using "1.IH"(3) [OF nomatch False "1.prems"(1) sy(1)] by simp
      then show ?thesis using nomatch False by simp
    qed
  qed
next
  case (2 k ys)
  then show ?case using pairing_empty_left by auto
next
  case (3 k xs)
  then show ?case using pairing_empty_right by auto
qed

lemma pairing_mono:
  "pairing k X Y P \<Longrightarrow> X \<subseteq># X' \<Longrightarrow> Y \<subseteq># Y' \<Longrightarrow> pairing k X' Y' P"
  unfolding pairing_def by (meson subset_mset.order_trans)

lemma sweep_pairing: "\<exists>P. pairing k (mset xs) (mset ys) P \<and> size P = sweep k xs ys"
proof (induction k xs ys rule: sweep.induct)
  case (1 k x xs y ys)
  show ?case
  proof (cases "\<bar>x - y\<bar> \<le> k")
    case True
    then obtain P where P: "pairing k (mset xs) (mset ys) P" "size P = sweep k xs ys"
      using "1.IH"(1) by blast
    have "pairing k (mset (x # xs)) (mset (y # ys)) (add_mset (x, y) P)"
      using P(1) True unfolding pairing_def by simp
    then show ?thesis using P(2) True by (intro exI [of _ "add_mset (x, y) P"]) simp
  next
    case nomatch: False
    show ?thesis
    proof (cases "x < y")
      case True
      then obtain P where P: "pairing k (mset xs) (mset (y # ys)) P" "size P = sweep k xs (y # ys)"
        using "1.IH"(2) nomatch by blast
      have "pairing k (mset (x # xs)) (mset (y # ys)) P"
        using P(1) by (rule pairing_mono) simp_all
      then show ?thesis using P(2) nomatch True by auto
    next
      case False
      then obtain P where P: "pairing k (mset (x # xs)) (mset ys) P" "size P = sweep k (x # xs) ys"
        using "1.IH"(3) nomatch by blast
      have "pairing k (mset (x # xs)) (mset (y # ys)) P"
        using P(1) by (rule pairing_mono) simp_all
      then show ?thesis using P(2) nomatch False by auto
    qed
  qed
next
  case (2 k ys)
  show ?case by (intro exI [of _ "{#}"]) (simp add: pairing_def)
next
  case (3 k xs)
  show ?case by (intro exI [of _ "{#}"]) (simp add: pairing_def)
qed

lemma index_recovery:
  "mset vs \<subseteq># mset as \<Longrightarrow> \<exists>ix. distinct ix \<and> set ix \<subseteq> {..<length as} \<and> map (nth as) ix = vs"
proof (induction as arbitrary: vs)
  case Nil
  then show ?case by simp
next
  case (Cons a as)
  show ?case
  proof (cases "a \<in> set vs")
    case True
    then obtain v1 v2 where vs: "vs = v1 @ a # v2" by (meson split_list)
    have "mset (v1 @ v2) \<subseteq># mset as" using Cons.prems unfolding vs by simp
    then obtain ix' where ix': "distinct ix'" "set ix' \<subseteq> {..<length as}" "map (nth as) ix' = v1 @ v2"
      using Cons.IH by blast
    define i1 where "i1 = take (length v1) ix'"
    define i2 where "i2 = drop (length v1) ix'"
    have split: "ix' = i1 @ i2" by (simp add: i1_def i2_def)
    have m1: "map (nth as) i1 = v1"
      unfolding i1_def by (metis append_eq_conv_conj ix'(3) take_map)
    have m2: "map (nth as) i2 = v2"
      unfolding i2_def by (metis append_eq_conv_conj ix'(3) drop_map)
    let ?ix = "map Suc i1 @ 0 # map Suc i2"
    have "distinct ?ix" using ix'(1) unfolding split by (auto simp: distinct_map)
    moreover have "set ?ix \<subseteq> {..<length (a # as)}" using ix'(2) unfolding split by auto
    moreover have "map (nth (a # as)) ?ix = vs" using m1 m2 unfolding vs by (simp add: comp_def)
    ultimately show ?thesis by blast
  next
    case False
    then have "mset vs \<subseteq># mset as"
      using Cons.prems by (auto intro: subset_add_notin)
    then obtain ix' where ix': "distinct ix'" "set ix' \<subseteq> {..<length as}" "map (nth as) ix' = vs"
      using Cons.IH by blast
    let ?ix = "map Suc ix'"
    have "distinct ?ix" using ix'(1) by (simp add: distinct_map)
    moreover have "set ?ix \<subseteq> {..<length (a # as)}" using ix'(2) by auto
    moreover have "map (nth (a # as)) ?ix = vs" using ix'(3) by (simp add: comp_def)
    ultimately show ?thesis by blast
  qed
qed

section \<open>Matchings of positions and pairings of values\<close>

lemma matching_finite: "matching a b k M \<Longrightarrow> finite M"
  unfolding matching_def by (meson finite_SigmaI finite_lessThan finite_subset)

lemma mset_nth_sub:
  assumes "I \<subseteq> {..<length as}"
  shows "image_mset (\<lambda>i. f (as ! i)) (mset_set I) \<subseteq># mset (map f as)"
proof -
  have "mset (map f as) = image_mset (\<lambda>i. f (as ! i)) (mset_set {..<length as})"
  proof -
    have "mset as = mset (map (nth as) [0..<length as])" by (simp only: map_nth)
    also have "\<dots> = image_mset (nth as) (mset_set {..<length as})"
      by (simp add: lessThan_atLeast0 del: map_nth)
    finally show ?thesis by (simp add: multiset.map_comp comp_def)
  qed
  moreover have "mset_set I \<subseteq># mset_set {..<length as}"
    using assms by (simp add: subset_imp_msubset_mset_set)
  ultimately show ?thesis by (simp add: image_mset_subseteq_mono)
qed

lemma matching_to_pairing:
  assumes "matching a b k M"
  shows "\<exists>P. pairing (sint k) (mset (map sint a)) (mset (map sint b)) P \<and> size P = card M"
proof -
  let ?g = "\<lambda>(p, q). (sint (a ! p), sint (b ! q))"
  let ?P = "image_mset ?g (mset_set M)"
  have fin: "finite M" using assms by (rule matching_finite)
  have "image_mset fst ?P = image_mset (\<lambda>i. sint (a ! i)) (image_mset fst (mset_set M))"
    by (simp add: multiset.map_comp comp_def case_prod_unfold)
  also have "image_mset fst (mset_set M) = mset_set (fst ` M)"
    using assms unfolding matching_def by (simp add: image_mset_mset_set)
  finally have l: "image_mset fst ?P \<subseteq># mset (map sint a)"
    using mset_nth_sub [of "fst ` M" a sint] assms unfolding matching_def by fastforce
  have "image_mset snd ?P = image_mset (\<lambda>i. sint (b ! i)) (image_mset snd (mset_set M))"
    by (simp add: multiset.map_comp comp_def case_prod_unfold)
  also have "image_mset snd (mset_set M) = mset_set (snd ` M)"
    using assms unfolding matching_def by (simp add: image_mset_mset_set)
  finally have r: "image_mset snd ?P \<subseteq># mset (map sint b)"
    using mset_nth_sub [of "snd ` M" b sint] assms unfolding matching_def by fastforce
  note l r
  moreover have "\<forall>p\<in>#?P. \<bar>fst p - snd p\<bar> \<le> sint k"
    using assms fin unfolding matching_def by auto
  moreover have "size ?P = card M" by simp
  ultimately show ?thesis unfolding pairing_def by blast
qed

lemma pairing_to_matching:
  assumes "pairing (sint k) (mset (map sint a)) (mset (map sint b)) P"
  shows "\<exists>M. matching a b k M \<and> card M = size P"
proof -
  obtain ps where ps: "mset ps = P" using ex_mset by blast
  have "mset (map fst ps) \<subseteq># mset (map sint a)" "mset (map snd ps) \<subseteq># mset (map sint b)"
    using assms unfolding pairing_def ps [symmetric] by simp_all
  then obtain ix jx where
    ix: "distinct ix" "set ix \<subseteq> {..<length a}" "map (nth (map sint a)) ix = map fst ps" and
    jx: "distinct jx" "set jx \<subseteq> {..<length b}" "map (nth (map sint b)) jx = map snd ps"
    using index_recovery [of "map fst ps" "map sint a"] index_recovery [of "map snd ps" "map sint b"]
    by auto
  have len: "length ix = length ps" "length jx = length ps"
    using ix(3) jx(3) by (metis length_map)+
  let ?M = "set (zip ix jx)"
  have d: "distinct (zip ix jx)" using ix(1) by (rule distinct_zipI1)
  have "?M \<subseteq> {..<length a} \<times> {..<length b}"
    using ix(2) jx(2) by (auto dest: set_zip_leftD set_zip_rightD)
  moreover have "inj_on fst ?M"
    using ix(1) len by (metis distinct_map map_fst_zip)
  moreover have "inj_on snd ?M"
    using jx(1) len by (metis distinct_map map_snd_zip)
  moreover have "\<forall>(p, q)\<in>?M. \<bar>sint (a ! p) - sint (b ! q)\<bar> \<le> sint k"
  proof (clarify)
    fix p q assume "(p, q) \<in> ?M"
    then obtain n where n: "n < length ps" "p = ix ! n" "q = jx ! n"
      using len by (auto simp: set_zip)
    have "p < length a" "q < length b" using n ix(2) jx(2) len by (auto simp: subset_iff)
    have "map (nth (map sint a)) ix ! n = fst (ps ! n)" using ix(3) n(1) by simp
    then have 1: "sint (a ! p) = fst (ps ! n)" using n len \<open>p < length a\<close> by simp
    have "map (nth (map sint b)) jx ! n = snd (ps ! n)" using jx(3) n(1) by simp
    then have 2: "sint (b ! q) = snd (ps ! n)" using n len \<open>q < length b\<close> by simp
    have "ps ! n \<in># P" using n(1) ps by (metis nth_mem_mset)
    then show "\<bar>sint (a ! p) - sint (b ! q)\<bar> \<le> sint k"
      using assms 1 2 unfolding pairing_def by auto
  qed
  moreover have "card ?M = size P" using d len ps by (metis distinct_card length_zip min.idem size_mset)
  ultimately show ?thesis unfolding matching_def by blast
qed

section \<open>Machine arithmetic without overflow\<close>

lemma sint_sub_exact:
  fixes x y :: int32
  assumes "\<bar>sint x - sint y\<bar> < 2 ^ 31"
  shows "sint (x - y) = sint x - sint y"
  using assms by (simp add: sint_word_ariths signed_take_bit_int_eq_self)

lemma sint_abs32:
  fixes d :: int32
  assumes "\<bar>sint d\<bar> < 2 ^ 31"
  shows "sint (abs32 d) = \<bar>sint d\<bar>"
  using assms by (simp add: abs32_def word_sless_alt sint_word_ariths signed_take_bit_int_eq_self)

lemma match_exact:
  fixes x y k :: int32
  assumes "\<bar>sint x - sint y\<bar> < 2 ^ 31"
  shows "(abs32 (x - y) \<le>s k) = (\<bar>sint x - sint y\<bar> \<le> sint k)"
  using assms sint_abs32 [of "x - y"] by (simp add: word_sle_eq sint_sub_exact)

lemma no_overflow_nth:
  "no_overflow a b \<Longrightarrow> i < length a \<Longrightarrow> j < length b \<Longrightarrow> \<bar>sint (a ! i) - sint (b ! j)\<bar> < 2 ^ 31"
  unfolding no_overflow_def by (simp add: list_all_length)

lemma sweep_Nil2 [simp]: "sweep k xs [] = 0"
  by (cases xs) simp_all

lemma loop2_sweep:
  "no_overflow a b \<Longrightarrow>
   result (loop2 a b k (i, j, cnt)) = cnt + sweep (sint k) (map sint (drop i a)) (map sint (drop j b))"
proof (induction a b k "(i, j, cnt)" arbitrary: i j cnt rule: loop2.induct)
  case (1 a b k)
  show ?case
  proof (cases "i < length a \<and> j < length b")
    case True
    then have da: "drop i a = a ! i # drop (Suc i) a" and db: "drop j b = b ! j # drop (Suc j) b"
      by (simp_all add: Cons_nth_drop_Suc)
    have m: "(abs32 (a ! i - b ! j) \<le>s k) = (\<bar>sint (a ! i) - sint (b ! j)\<bar> \<le> sint k)"
      using no_overflow_nth [OF "1.prems"] True by (intro match_exact) simp
    show ?thesis
      using True "1.hyps" [of "fst (body2 a b k (i, j, cnt))" "fst (snd (body2 a b k (i, j, cnt)))" "snd (snd (body2 a b k (i, j, cnt)))"] "1.prems"
      by (subst loop2.simps) (auto simp: m da db word_sless_alt)
  next
    case False
    then show ?thesis by (subst loop2.simps) auto
  qed
qed

lemma body_agree:
  assumes "\<bar>sint (a ! i) - sint (b ! j)\<bar> < 2 ^ 31" and "0 \<le>s k"
  shows "body1 a b k (i, j, cnt) = body2 a b k (i, j, cnt)"
proof -
  have "sint (a ! i - b ! j) = sint (a ! i) - sint (b ! j)" using assms(1) by (rule sint_sub_exact)
  then show ?thesis
    using assms match_exact [of "a ! i" "b ! j" k] by (auto simp: word_sless_alt word_sle_eq)
qed

lemma loop1_loop2:
  "no_overflow a b \<Longrightarrow> 0 \<le>s k \<Longrightarrow> loop1 a b k s = loop2 a b k s"
proof (induction a b k s rule: loop2.induct)
  case (1 a b k s)
  obtain i j cnt where s: "s = (i, j, cnt)" by (cases s) auto
  show ?case
  proof (cases "loop_cond a b s")
    case True
    then have "body1 a b k s = body2 a b k s"
      unfolding s using no_overflow_nth [OF "1.prems"(1)] "1.prems"(2) by (intro body_agree) simp_all
    then show ?thesis using True "1.IH" "1.prems" by (subst loop1.simps, subst loop2.simps) simp
  next
    case False
    then show ?thesis by (subst loop1.simps, subst loop2.simps) simp
  qed
qed

lemma sorted_sort32: "sorted (map sint (sort32 xs))"
  by (simp add: sort32_def)

lemma mset_sort32: "mset (sort32 xs) = mset xs"
  by (simp add: sort32_def)

lemma no_overflow_sort32: "no_overflow (sort32 a) (sort32 b) = no_overflow a b"
  by (simp add: no_overflow_def list_all_iff sort32_def)

lemma main2_sweep:
  "no_overflow a b \<Longrightarrow> main2 a b k = sweep (sint k) (map sint (sort32 a)) (map sint (sort32 b))"
  using loop2_sweep [of "sort32 a" "sort32 b" k 0 0 0]
  by (simp add: main2_def init_def no_overflow_sort32)

lemma main1_main2: "no_overflow a b \<Longrightarrow> 0 \<le>s k \<Longrightarrow> main1 a b k = main2 a b k"
  by (simp add: main1_def main2_def loop1_loop2 no_overflow_sort32)

lemma pairing_sort32:
  "pairing k (mset (map sint (sort32 a))) (mset (map sint (sort32 b))) P =
   pairing k (mset (map sint a)) (mset (map sint b)) P"
  by (simp add: mset_sort32)

lemma main2_upper:
  assumes "no_overflow a b" and "matching a b k M"
  shows "card M \<le> main2 a b k"
proof -
  obtain P where P: "pairing (sint k) (mset (map sint a)) (mset (map sint b)) P" "size P = card M"
    using matching_to_pairing [OF assms(2)] by blast
  have "size P \<le> sweep (sint k) (map sint (sort32 a)) (map sint (sort32 b))"
    using P(1) by (intro sweep_upper sorted_sort32) (simp only: pairing_sort32)
  then show ?thesis using P(2) assms(1) by (simp add: main2_sweep)
qed

lemma main2_attained:
  assumes "no_overflow a b"
  shows "\<exists>M. matching a b k M \<and> card M = main2 a b k"
proof -
  obtain P where P: "pairing (sint k) (mset (map sint (sort32 a))) (mset (map sint (sort32 b))) P"
    "size P = sweep (sint k) (map sint (sort32 a)) (map sint (sort32 b))"
    using sweep_pairing by blast
  have "pairing (sint k) (mset (map sint a)) (mset (map sint b)) P"
    using P(1) by (simp only: pairing_sort32)
  then obtain M where "matching a b k M" "card M = size P"
    using pairing_to_matching by blast
  then show ?thesis using P(2) assms by (auto simp: main2_sweep)
qed

lemma matchings_finite: "finite {M. matching a b k M}"
proof -
  have "{M. matching a b k M} \<subseteq> Pow ({..<length a} \<times> {..<length b})"
    unfolding matching_def by auto
  then show ?thesis by (rule finite_subset) simp
qed

lemma main2_max_matching:
  assumes "no_overflow a b"
  shows "main2 a b k = max_matching a b k"
proof -
  obtain M where M: "matching a b k M" "card M = main2 a b k"
    using main2_attained [OF assms] by blast
  have "Max (card ` {M. matching a b k M}) = main2 a b k"
  proof (rule Max_eqI)
    show "finite (card ` {M. matching a b k M})" using matchings_finite by simp
    show "\<And>y. y \<in> card ` {M. matching a b k M} \<Longrightarrow> y \<le> main2 a b k"
      using main2_upper [OF assms] by auto
    show "main2 a b k \<in> card ` {M. matching a b k M}" using M by force
  qed
  then show ?thesis by (simp add: max_matching_def)
qed

section \<open>Iterations, invariant and exit of the loops\<close>

lemma length_sort32: "length (sort32 xs) = length xs"
  by (simp add: sort32_def)

lemma loop2_funpow: "loop2 a b k s = (body2 a b k ^^ iters2 a b k s) s"
proof (induction a b k s rule: loop2.induct)
  case (1 a b k s)
  show ?case
  proof (cases "loop_cond a b s")
    case True
    then show ?thesis
      using "1.IH" by (subst loop2.simps, subst iters2.simps) (simp add: funpow_swap1)
  next
    case False
    then show ?thesis by (subst loop2.simps, subst iters2.simps) simp
  qed
qed

lemma iters2_bound: "iters2 a b k (i, j, cnt) \<le> (length a - i) + (length b - j)"
proof (induction a b k "(i, j, cnt)" arbitrary: i j cnt rule: iters2.induct)
  case (1 a b k)
  show ?case
  proof (cases "i < length a \<and> j < length b")
    case True
    then show ?thesis
      using "1.hyps" [of "fst (body2 a b k (i, j, cnt))" "fst (snd (body2 a b k (i, j, cnt)))" "snd (snd (body2 a b k (i, j, cnt)))"]
      by (subst iters2.simps) (auto split: if_splits)
  next
    case False
    then show ?thesis by (subst iters2.simps) auto
  qed
qed

lemma loop_cond2_before: "t < iters2 a b k s \<Longrightarrow> loop_cond a b ((body2 a b k ^^ t) s)"
proof (induction a b k s arbitrary: t rule: iters2.induct)
  case (1 a b k s)
  have c: "loop_cond a b s" using "1.prems" by (subst (asm) iters2.simps) (simp split: if_splits)
  show ?case
  proof (cases t)
    case 0
    then show ?thesis using c by simp
  next
    case (Suc t')
    then have "t' < iters2 a b k (body2 a b k s)"
      using "1.prems" c by (subst (asm) iters2.simps) simp
    then show ?thesis using "1.IH" [OF c] Suc by (simp add: funpow_swap1)
  qed
qed

lemma loop2_exit: "\<not> loop_cond a b (loop2 a b k s)"
  by (induction a b k s rule: loop2.induct) (subst loop2.simps, simp)

lemma body2_advances: "loop_cond a b s \<Longrightarrow> advances s (body2 a b k s)"
  by (cases s) auto

lemma body2_bounded_inv: "loop_cond a b s \<Longrightarrow> bounded_inv (length a) (length b) s \<Longrightarrow> bounded_inv (length a) (length b) (body2 a b k s)"
  by (cases s) auto

lemma loop2_bounded_inv:
  "bounded_inv (length a) (length b) s \<Longrightarrow> t \<le> iters2 a b k s \<Longrightarrow> bounded_inv (length a) (length b) ((body2 a b k ^^ t) s)"
proof (induction t)
  case 0
  then show ?case by simp
next
  case (Suc t)
  then have "bounded_inv (length a) (length b) ((body2 a b k ^^ t) s)" by simp
  moreover have "loop_cond a b ((body2 a b k ^^ t) s)" using Suc.prems(2) by (intro loop_cond2_before) simp
  ultimately show ?case by (simp add: body2_bounded_inv)
qed

lemma loop2_while: "while_option (loop_cond a b) (body2 a b k) s = Some (loop2 a b k s)"
proof (induction a b k s rule: loop2.induct)
  case (1 a b k s)
  show ?case
    using "1.IH" by (subst while_option_unfold, subst loop2.simps) simp
qed

lemma loop2_result_bound: "bounded_inv (length a) (length b) s \<Longrightarrow> result (loop2 a b k s) \<le> min (length a) (length b)"
  using loop2_bounded_inv [of a b s "iters2 a b k s" k]
  by (cases "loop2 a b k s") (auto simp: loop2_funpow [symmetric])

lemma main2_bound: "main2 a b k \<le> min (length a) (length b)"
  using loop2_result_bound [of "sort32 a" "sort32 b" init k]
  by (simp add: main2_def init_def length_sort32)

lemma loop1_funpow: "loop1 a b k s = (body1 a b k ^^ iters1 a b k s) s"
proof (induction a b k s rule: loop1.induct)
  case (1 a b k s)
  show ?case
  proof (cases "loop_cond a b s")
    case True
    then show ?thesis
      using "1.IH" by (subst loop1.simps, subst iters1.simps) (simp add: funpow_swap1)
  next
    case False
    then show ?thesis by (subst loop1.simps, subst iters1.simps) simp
  qed
qed

lemma iters1_bound: "iters1 a b k (i, j, cnt) \<le> (length a - i) + (length b - j)"
proof (induction a b k "(i, j, cnt)" arbitrary: i j cnt rule: iters1.induct)
  case (1 a b k)
  show ?case
  proof (cases "i < length a \<and> j < length b")
    case True
    then show ?thesis
      using "1.hyps" [of "fst (body1 a b k (i, j, cnt))" "fst (snd (body1 a b k (i, j, cnt)))" "snd (snd (body1 a b k (i, j, cnt)))"]
      by (subst iters1.simps) (auto split: if_splits)
  next
    case False
    then show ?thesis by (subst iters1.simps) auto
  qed
qed

lemma loop_cond1_before: "t < iters1 a b k s \<Longrightarrow> loop_cond a b ((body1 a b k ^^ t) s)"
proof (induction a b k s arbitrary: t rule: iters1.induct)
  case (1 a b k s)
  have c: "loop_cond a b s" using "1.prems" by (subst (asm) iters1.simps) (simp split: if_splits)
  show ?case
  proof (cases t)
    case 0
    then show ?thesis using c by simp
  next
    case (Suc t')
    then have "t' < iters1 a b k (body1 a b k s)"
      using "1.prems" c by (subst (asm) iters1.simps) simp
    then show ?thesis using "1.IH" [OF c] Suc by (simp add: funpow_swap1)
  qed
qed

lemma loop1_exit: "\<not> loop_cond a b (loop1 a b k s)"
  by (induction a b k s rule: loop1.induct) (subst loop1.simps, simp)

lemma body1_advances: "loop_cond a b s \<Longrightarrow> advances s (body1 a b k s)"
  by (cases s) auto

lemma body1_bounded_inv: "loop_cond a b s \<Longrightarrow> bounded_inv (length a) (length b) s \<Longrightarrow> bounded_inv (length a) (length b) (body1 a b k s)"
  by (cases s) auto

lemma loop1_bounded_inv:
  "bounded_inv (length a) (length b) s \<Longrightarrow> t \<le> iters1 a b k s \<Longrightarrow> bounded_inv (length a) (length b) ((body1 a b k ^^ t) s)"
proof (induction t)
  case 0
  then show ?case by simp
next
  case (Suc t)
  then have "bounded_inv (length a) (length b) ((body1 a b k ^^ t) s)" by simp
  moreover have "loop_cond a b ((body1 a b k ^^ t) s)" using Suc.prems(2) by (intro loop_cond1_before) simp
  ultimately show ?case by (simp add: body1_bounded_inv)
qed

lemma loop1_while: "while_option (loop_cond a b) (body1 a b k) s = Some (loop1 a b k s)"
proof (induction a b k s rule: loop1.induct)
  case (1 a b k s)
  show ?case
    using "1.IH" by (subst while_option_unfold, subst loop1.simps) simp
qed

lemma loop1_result_bound: "bounded_inv (length a) (length b) s \<Longrightarrow> result (loop1 a b k s) \<le> min (length a) (length b)"
  using loop1_bounded_inv [of a b s "iters1 a b k s" k]
  by (cases "loop1 a b k s") (auto simp: loop1_funpow [symmetric])

lemma main1_bound: "main1 a b k \<le> min (length a) (length b)"
  using loop1_result_bound [of "sort32 a" "sort32 b" init k]
  by (simp add: main1_def init_def length_sort32)

section \<open>Exchanging the two vectors\<close>

lemma sint_neg_exact:
  fixes d :: int32
  assumes "sint d \<noteq> - (2 ^ 31)"
  shows "sint (- d) = - sint d"
proof -
  have "- (2 ^ 31) \<le> sint d" "sint d < 2 ^ 31" using sint_ge [of d] sint_lt [of d] by simp_all
  then show ?thesis using assms by (simp add: sint_word_ariths signed_take_bit_int_eq_self)
qed

lemma neg_int_min:
  fixes d :: int32
  assumes "sint d = - (2 ^ 31)"
  shows "- d = d"
proof (rule signed_word_eqI)
  have "sint (- d) = signed_take_bit 31 (2 ^ 31 :: int)" using assms by (simp add: sint_word_ariths)
  also have "\<dots> = - (2 ^ 31)" by (simp add: signed_take_bit_eq_take_bit_minus)
  finally show "sint (- d) = sint d" using assms by simp
qed

lemma abs32_neg: "abs32 (- d) = abs32 d"
proof (cases "sint d = - (2 ^ 31)")
  case True
  then show ?thesis by (simp add: neg_int_min)
next
  case False
  have z: "sint d = 0 \<Longrightarrow> d = 0" by (metis signed_word_eqI sint_0)
  show ?thesis
    using sint_neg_exact [OF False] z
    by (cases "sint d < 0"; cases "sint d = 0") (auto simp: abs32_def word_sless_alt)
qed

lemma abs32_swap: "abs32 (y - x) = abs32 (x - y)"
  using abs32_neg [of "x - y"] by simp

lemma nomatch_neq: "0 \<le>s k \<Longrightarrow> \<not> abs32 (x - y) \<le>s k \<Longrightarrow> x \<noteq> y"
  by (auto simp: abs32_def)

lemma nomatch_sign:
  fixes d k :: int32
  assumes "0 \<le>s k" "\<not> abs32 d \<le>s k"
  shows "(k <s - d) = (\<not> k <s d)"
proof (cases "sint d = - (2 ^ 31)")
  case True
  then have "abs32 d = d" by (simp add: abs32_def neg_int_min)
  then show ?thesis using assms True by (simp add: word_sle_eq)
next
  case False
  then have "\<bar>sint d\<bar> < 2 ^ 31" using sint_ge [of d] sint_lt [of d] by simp
  then have "sint (abs32 d) = \<bar>sint d\<bar>" by (rule sint_abs32)
  then show ?thesis
    using assms sint_neg_exact [OF False] by (simp add: word_sle_eq word_sless_alt) linarith
qed

lemma sort32_cong: "mset a = mset a' \<Longrightarrow> sort32 a = sort32 a'"
  unfolding sort32_def
  by (rule sort_key_eq_sort_key) (auto intro!: inj_onI signed_word_eqI)

lemma less_swap:
  fixes x y :: int32
  assumes "x \<noteq> y"
  shows "(y <s x) = (\<not> x <s y)"
proof -
  have "sint x \<noteq> sint y" using assms signed_word_eqI [of x y] by blast
  then show ?thesis by (auto simp: word_sless_alt)
qed

lemma loop2_swap:
  "0 \<le>s k \<Longrightarrow> result (loop2 a b k (i, j, cnt)) = result (loop2 b a k (j, i, cnt))"
proof (induction a b k "(i, j, cnt)" arbitrary: i j cnt rule: loop2.induct)
  case (1 a b k)
  show ?case
  proof (cases "i < length a \<and> j < length b")
    case True
    show ?thesis
    proof (cases "abs32 (a ! i - b ! j) \<le>s k")
      case m: True
      then have m': "abs32 (b ! j - a ! i) \<le>s k" by (simp add: abs32_swap)
      have "result (loop2 a b k (i + 1, j + 1, cnt + 1)) = result (loop2 b a k (j + 1, i + 1, cnt + 1))"
        using "1.hyps" [of "i + 1" "j + 1" "cnt + 1"] True m "1.prems" by simp
      then show ?thesis
        using True m m' by (subst loop2.simps, subst (2) loop2.simps) simp
    next
      case m: False
      then have m': "\<not> abs32 (b ! j - a ! i) \<le>s k" by (simp add: abs32_swap)
      have ne: "a ! i \<noteq> b ! j" using "1.prems" m by (rule nomatch_neq)
      show ?thesis
      proof (cases "a ! i <s b ! j")
        case l: True
        then have l': "\<not> b ! j <s a ! i" using less_swap [OF ne] by simp
        have "result (loop2 a b k (i + 1, j, cnt)) = result (loop2 b a k (j, i + 1, cnt))"
          using "1.hyps" [of "i + 1" j cnt] True m l "1.prems" by simp
        then show ?thesis
          using True m m' l l' by (subst loop2.simps, subst (2) loop2.simps) simp
      next
        case l: False
        then have l': "b ! j <s a ! i" using less_swap [OF ne] by simp
        have "result (loop2 a b k (i, j + 1, cnt)) = result (loop2 b a k (j + 1, i, cnt))"
          using "1.hyps" [of i "j + 1" cnt] True m l "1.prems" by simp
        then show ?thesis
          using True m m' l l' by (subst loop2.simps, subst (2) loop2.simps) simp
      qed
    qed
  next
    case False
    then show ?thesis by (subst loop2.simps, subst (2) loop2.simps) auto
  qed
qed

lemma loop1_swap:
  "0 \<le>s k \<Longrightarrow> result (loop1 a b k (i, j, cnt)) = result (loop1 b a k (j, i, cnt))"
proof (induction a b k "(i, j, cnt)" arbitrary: i j cnt rule: loop1.induct)
  case (1 a b k)
  show ?case
  proof (cases "i < length a \<and> j < length b")
    case True
    show ?thesis
    proof (cases "abs32 (a ! i - b ! j) \<le>s k")
      case m: True
      then have m': "abs32 (b ! j - a ! i) \<le>s k" by (simp add: abs32_swap)
      have "result (loop1 a b k (i + 1, j + 1, cnt + 1)) = result (loop1 b a k (j + 1, i + 1, cnt + 1))"
        using "1.hyps" [of "i + 1" "j + 1" "cnt + 1"] True m "1.prems" by simp
      then show ?thesis
        using True m m' by (subst loop1.simps, subst (2) loop1.simps) simp
    next
      case m: False
      then have m': "\<not> abs32 (b ! j - a ! i) \<le>s k" by (simp add: abs32_swap)
      have sg: "(k <s b ! j - a ! i) = (\<not> k <s a ! i - b ! j)"
        using nomatch_sign [OF "1.prems" m] by simp
      show ?thesis
      proof (cases "k <s a ! i - b ! j")
        case l: True
        then have l': "\<not> k <s b ! j - a ! i" using sg by simp
        have "result (loop1 a b k (i, j + 1, cnt)) = result (loop1 b a k (j + 1, i, cnt))"
          using "1.hyps" [of i "j + 1" cnt] True m l "1.prems" by simp
        then show ?thesis
          using True m m' l l' by (subst loop1.simps, subst (2) loop1.simps) simp
      next
        case l: False
        then have l': "k <s b ! j - a ! i" using sg by simp
        have "result (loop1 a b k (i + 1, j, cnt)) = result (loop1 b a k (j, i + 1, cnt))"
          using "1.hyps" [of "i + 1" j cnt] True m l "1.prems" by simp
        then show ?thesis
          using True m m' l l' by (subst loop1.simps, subst (2) loop1.simps) simp
      qed
    qed
  next
    case False
    then show ?thesis by (subst loop1.simps, subst (2) loop1.simps) auto
  qed
qed

section \<open>Further facts about matchings and the loops\<close>

lemma matching_mono:
  "matching a b k1 M \<Longrightarrow> k1 \<le>s k2 \<Longrightarrow> matching a b k2 M"
  unfolding matching_def by (auto simp: word_sle_eq) 

lemma in_range30_no_overflow:
  "list_all in_range30 a \<Longrightarrow> list_all in_range30 b \<Longrightarrow> no_overflow a b"
  unfolding no_overflow_def in_range30_def list_all_iff
proof (intro ballI)
  fix x y
  assume "\<forall>x\<in>set a. - (2 ^ 30) \<le> sint x \<and> sint x \<le> 2 ^ 30 - 1"
    and "\<forall>x\<in>set b. - (2 ^ 30) \<le> sint x \<and> sint x \<le> 2 ^ 30 - 1"
    and "x \<in> set a" and "y \<in> set b"
  then have "- (2 ^ 30) \<le> sint x \<and> sint x \<le> 2 ^ 30 - 1" "- (2 ^ 30) \<le> sint y \<and> sint y \<le> 2 ^ 30 - 1"
    by blast+
  then show "\<bar>sint x - sint y\<bar> < 2 ^ 31" by (simp add: abs_if)
qed

lemma no_matching_max:
  assumes "\<And>M. matching a b k M \<Longrightarrow> M = {}"
  shows "max_matching a b k = 0"
proof -
  have "matching a b k {}" by (simp add: matching_def)
  then have "{M. matching a b k M} = {{}}" using assms by auto
  then show ?thesis by (simp add: max_matching_def)
qed

lemma loop1_empty: "a = [] \<or> b = [] \<Longrightarrow> loop1 a b k (i, j, ans) = (i, j, ans)"
  by (subst loop1.simps) auto

lemma loop2_empty: "a = [] \<or> b = [] \<Longrightarrow> loop2 a b k (i, j, cnt) = (i, j, cnt)"
  by (subst loop2.simps) auto

lemma loop1_negative:
  "no_overflow a b \<Longrightarrow> k <s 0 \<Longrightarrow> result (loop1 a b k (i, j, ans)) = ans"
proof (induction a b k "(i, j, ans)" arbitrary: i j rule: loop1.induct)
  case (1 a b k)
  show ?case
  proof (cases "i < length a \<and> j < length b")
    case True
    have "\<not> abs32 (a ! i - b ! j) \<le>s k"
      using no_overflow_nth [OF "1.prems"(1)] True "1.prems"(2)
      by (subst match_exact) (simp_all add: word_sless_alt)
    then show ?thesis
      using True "1.hyps" [of "i" "j + 1"] "1.hyps" [of "i + 1" j] "1.prems"
      by (subst loop1.simps) simp
  next
    case False
    then show ?thesis by (subst loop1.simps) auto
  qed
qed

lemma loop2_negative:
  "no_overflow a b \<Longrightarrow> k <s 0 \<Longrightarrow> result (loop2 a b k (i, j, cnt)) = cnt"
proof (induction a b k "(i, j, cnt)" arbitrary: i j rule: loop2.induct)
  case (1 a b k)
  show ?case
  proof (cases "i < length a \<and> j < length b")
    case True
    have "\<not> abs32 (a ! i - b ! j) \<le>s k"
      using no_overflow_nth [OF "1.prems"(1)] True "1.prems"(2)
      by (subst match_exact) (simp_all add: word_sless_alt)
    then show ?thesis
      using True "1.hyps" [of "i + 1" j] "1.hyps" [of i "j + 1"] "1.prems"
      by (subst loop2.simps) simp
  next
    case False
    then show ?thesis by (subst loop2.simps) auto
  qed
qed

lemma main1_main2_negative: "no_overflow a b \<Longrightarrow> k <s 0 \<Longrightarrow> main1 a b k = main2 a b k"
  by (simp add: main1_def main2_def init_def loop1_negative loop2_negative no_overflow_sort32)

lemma main1_main2_all: "no_overflow a b \<Longrightarrow> main1 a b k = main2 a b k"
  using main1_main2 [of a b k] main1_main2_negative [of a b k]
  by (cases "0 \<le>s k") (auto simp: word_sle_eq word_sless_alt)

section \<open>The claims\<close>

subsection \<open>C1: the printed count is the size of a maximum matching\<close>

text \<open>
  C1, as amended: for every input with \<open>k \<ge> 0\<close> in which no difference of an applicant
  value and an apartment value overflows (\<open>no_overflow\<close>), the integer that either
  program prints is the maximum cardinality of a set of applicant-apartment pairs in
  which the two values of each pair differ in absolute value by at most \<open>k\<close> and no
  applicant and no apartment occurs in more than one pair.
\<close>

theorem C1_max_matching:
  assumes "no_overflow a b" and "0 \<le>s k"
  shows "main1 a b k = max_matching a b k \<and> main2 a b k = max_matching a b k"
  using assms by (simp add: main1_main2 main2_max_matching)

theorem C1_max_matching_witness:
  "no_overflow [1, 5] [2, 6] \<and> (0 :: int32) \<le>s 1 \<and> max_matching [1, 5] [2, 6] 1 = 2"
proof -
  have h1: "no_overflow [1, 5] [2, 6]" by (simp add: no_overflow_def)
  have h2: "(0 :: int32) \<le>s 1" by (simp add: word_sle_eq)
  have "main2 [1, 5] [2, 6] 1 = 2"
    by (simp add: main2_def sort32_def init_def abs32_def word_sle_eq word_sless_alt loop2.simps)
  then show ?thesis using C1_max_matching [OF h1 h2] h1 h2 by simp
qed

text \<open>
  C1 as stated, for every input, fails: with the single applicant \<open>2147483647\<close>, the
  single apartment \<open>-2147483648\<close> and \<open>k = 1\<close> the subtraction wraps around to \<open>-1\<close>, the
  pair is counted and both programs print 1, while the two values differ by
  \<open>4294967295\<close> and no pair can be formed.
\<close>

theorem C1_counterexample:
  "main1 [2147483647] [- 2147483648] 1 = 1 \<and> main2 [2147483647] [- 2147483648] 1 = 1 \<and>
   max_matching [2147483647] [- 2147483648] 1 = 0"
proof -
  have "max_matching [2147483647] [- 2147483648] 1 = 0"
  proof (rule no_matching_max)
    fix M assume "matching [2147483647] [- 2147483648] 1 M"
    then have sub: "M \<subseteq> {0} \<times> {0}"
      and ok: "\<forall>(p, q)\<in>M. \<bar>sint ([2147483647 :: int32] ! p) - sint ([- 2147483648 :: int32] ! q)\<bar> \<le> 1"
      unfolding matching_def by (auto simp: lessThan_Suc)
    have "(0, 0) \<notin> M" using ok by auto
    then show "M = {}" using sub by auto
  qed
  moreover have "main1 [2147483647] [- 2147483648] 1 = 1"
    by (simp add: main1_def sort32_def init_def abs32_def word_sle_eq word_sless_alt loop1.simps)
  moreover have "main2 [2147483647] [- 2147483648] 1 = 1"
    by (simp add: main2_def sort32_def init_def abs32_def word_sle_eq word_sless_alt loop2.simps)
  ultimately show ?thesis by simp
qed

subsection \<open>C2: the two files print the same count\<close>

text \<open>
  C2, as amended: for every input without overflow the two programs print the same
  count; when moreover \<open>k \<ge> 0\<close>, the two loop bodies move the same index after a failed
  match test, in every state in which the loop runs, and the two loops end in the same
  state.
\<close>

theorem C2_programs_agree:
  assumes "no_overflow a b"
  shows "main1 a b k = main2 a b k \<and>
         (0 \<le>s k \<longrightarrow>
            loop1 (sort32 a) (sort32 b) k init = loop2 (sort32 a) (sort32 b) k init \<and>
            (\<forall>s. loop_cond (sort32 a) (sort32 b) s \<longrightarrow>
                 body1 (sort32 a) (sort32 b) k s = body2 (sort32 a) (sort32 b) k s))"
proof -
  have no: "no_overflow (sort32 a) (sort32 b)" using assms by (simp add: no_overflow_sort32)
  have "body1 (sort32 a) (sort32 b) k s = body2 (sort32 a) (sort32 b) k s"
    if "loop_cond (sort32 a) (sort32 b) s" and "0 \<le>s k" for s
  proof -
    obtain i j cnt where s: "s = (i, j, cnt)" by (cases s) auto
    show ?thesis
      unfolding s using that no_overflow_nth [OF no] by (intro body_agree) (simp_all add: s)
  qed
  then show ?thesis using assms no by (simp add: main1_main2_all loop1_loop2)
qed

theorem C2_programs_agree_witness:
  "no_overflow [1, 5] [2, 6] \<and> (0 :: int32) \<le>s 1 \<and> loop_cond (sort32 [1, 5]) (sort32 [2, 6]) init \<and>
   main1 [1, 5] [2, 6] 1 = main2 [1, 5] [2, 6] 1 \<and>
   body1 (sort32 [1, 5]) (sort32 [2, 6]) 1 init = body2 (sort32 [1, 5]) (sort32 [2, 6]) 1 init"
proof -
  have h1: "no_overflow [1, 5] [2, 6]" by (simp add: no_overflow_def)
  have h2: "(0 :: int32) \<le>s 1" by (simp add: word_sle_eq)
  have h3: "loop_cond (sort32 [1, 5]) (sort32 [2, 6]) init" by (simp add: sort32_def init_def)
  show ?thesis using C2_programs_agree [OF h1, of 1] h1 h2 h3 by blast
qed

text \<open>
  C2 as stated, for every input, fails: with the applicant \<open>2147483647\<close>, the apartments
  \<open>-2147483648\<close> and \<open>2147483647\<close> and \<open>k = 0\<close>, the difference of the first pair wraps
  around to \<open>-1\<close>; the first file tests \<open>-1 > 0\<close>, moves \<open>i\<close> and prints 0, the second
  file tests \<open>2147483647 < -2147483648\<close>, moves \<open>j\<close>, finds the equal values and
  prints 1.
\<close>

theorem C2_counterexample:
  "main1 [2147483647] [- 2147483648, 2147483647] 0 = 0 \<and>
   main2 [2147483647] [- 2147483648, 2147483647] 0 = 1"
  by (simp add: main1_def main2_def sort32_def init_def abs32_def word_sle_eq word_sless_alt
      loop1.simps loop2.simps)

subsection \<open>C3: monotonicity in the tolerance\<close>

text \<open>
  C3, as amended: for fixed applicant and apartment sequences without overflow and
  tolerances \<open>0 \<le> k1 \<le> k2\<close>, the count printed with \<open>k2\<close> is at least the count
  printed with \<open>k1\<close>, in both programs.
\<close>

theorem C3_monotone:
  assumes "no_overflow a b" and "0 \<le>s k1" and "k1 \<le>s k2"
  shows "main2 a b k1 \<le> main2 a b k2 \<and> main1 a b k1 \<le> main1 a b k2"
proof -
  obtain M where M: "matching a b k1 M" "card M = main2 a b k1"
    using main2_attained [OF assms(1)] by blast
  have "matching a b k2 M" using M(1) assms(3) by (rule matching_mono)
  then have "card M \<le> main2 a b k2" using assms(1) by (intro main2_upper)
  then have le: "main2 a b k1 \<le> main2 a b k2" using M(2) by simp
  have "0 \<le>s k2" using assms(2, 3) by (simp add: word_sle_eq)
  then show ?thesis using le assms by (simp add: main1_main2)
qed

theorem C3_monotone_witness:
  "no_overflow [1, 5] [3, 6] \<and> (0 :: int32) \<le>s 1 \<and> (1 :: int32) \<le>s 2 \<and>
   main2 [1, 5] [3, 6] 1 \<le> main2 [1, 5] [3, 6] 2 \<and> main1 [1, 5] [3, 6] 1 \<le> main1 [1, 5] [3, 6] 2"
proof -
  have h1: "no_overflow [1, 5] [3, 6]" by (simp add: no_overflow_def)
  have h2: "(0 :: int32) \<le>s 1" by (simp add: word_sle_eq)
  have h3: "(1 :: int32) \<le>s 2" by (simp add: word_sle_eq)
  show ?thesis using C3_monotone [OF h1 h2 h3] h1 h2 h3 by blast
qed

text \<open>
  C3 as stated, for all sequences, fails. In the second file, with applicants
  \<open>-1610612736, -1073741824\<close> and apartments \<open>-2147483648, 536870912, 1073741824\<close>,
  tolerance 0 gives two pairs whose difference is \<open>-2147483648\<close>, which \<^verbatim>\<open>abs\<close> leaves
  negative, and the count is 2; tolerance \<open>536870912\<close> pairs the first applicant with the
  first apartment and the count is 1. In the first file the count falls from 2 to 1
  between the tolerances \<open>1342177280\<close> and \<open>1610612736\<close> through differences that wrap
  around.
\<close>

theorem C3_counterexample:
  "main2 [- 1610612736, - 1073741824] [- 2147483648, 536870912, 1073741824] 0 = 2 \<and>
   main2 [- 1610612736, - 1073741824] [- 2147483648, 536870912, 1073741824] 536870912 = 1 \<and>
   main1 [- 2147483648, - 1073741824] [536870912, 805306368, 1879048192] 1342177280 = 2 \<and>
   main1 [- 2147483648, - 1073741824] [536870912, 805306368, 1879048192] 1610612736 = 1"
  by (simp add: main1_def main2_def sort32_def init_def abs32_def word_sle_eq word_sless_alt
      loop1.simps loop2.simps)

subsection \<open>C4: the count is at most the smaller length\<close>

text \<open>
  C4: for every input with \<open>n\<close> applicants and \<open>m\<close> apartments the printed count is at
  most \<open>min n m\<close>, and after every number of iterations that the loop runs the state
  satisfies \<open>count \<le> min i j \<le> min n m\<close>, in both programs.
\<close>

theorem C4_count_bounded:
  "main1 a b k \<le> min (length a) (length b) \<and> main2 a b k \<le> min (length a) (length b) \<and>
   (\<forall>t \<le> iters1 (sort32 a) (sort32 b) k init.
      bounded_inv (length a) (length b) ((body1 (sort32 a) (sort32 b) k ^^ t) init)) \<and>
   (\<forall>t \<le> iters2 (sort32 a) (sort32 b) k init.
      bounded_inv (length a) (length b) ((body2 (sort32 a) (sort32 b) k ^^ t) init))"
proof -
  have i: "bounded_inv (length (sort32 a)) (length (sort32 b)) init" by (simp add: init_def)
  have "\<forall>t \<le> iters1 (sort32 a) (sort32 b) k init.
      bounded_inv (length a) (length b) ((body1 (sort32 a) (sort32 b) k ^^ t) init)"
    using loop1_bounded_inv [OF i, of _ k] by (simp add: length_sort32)
  moreover have "\<forall>t \<le> iters2 (sort32 a) (sort32 b) k init.
      bounded_inv (length a) (length b) ((body2 (sort32 a) (sort32 b) k ^^ t) init)"
    using loop2_bounded_inv [OF i, of _ k] by (simp add: length_sort32)
  ultimately show ?thesis using main1_bound [of a b k] main2_bound [of a b k] by blast
qed

theorem C4_count_bounded_witness:
  "(1 :: nat) \<le> iters2 (sort32 [1, 5]) (sort32 [2, 6]) 1 init \<and>
   bounded_inv (length [1, 5 :: int32]) (length [2, 6 :: int32]) ((body2 (sort32 [1, 5]) (sort32 [2, 6]) 1 ^^ 1) init) \<and>
   (1 :: nat) \<le> iters1 (sort32 [1, 5]) (sort32 [2, 6]) 1 init \<and>
   bounded_inv (length [1, 5 :: int32]) (length [2, 6 :: int32]) ((body1 (sort32 [1, 5]) (sort32 [2, 6]) 1 ^^ 1) init)"
proof -
  have h1: "(1 :: nat) \<le> iters2 (sort32 [1, 5]) (sort32 [2, 6]) 1 init"
    by (subst iters2.simps) (simp add: sort32_def init_def)
  have h2: "(1 :: nat) \<le> iters1 (sort32 [1, 5]) (sort32 [2, 6]) 1 init"
    by (subst iters1.simps) (simp add: sort32_def init_def)
  show ?thesis using C4_count_bounded [of "[1, 5]" "[2, 6]" 1] h1 h2 by blast
qed

subsection \<open>C5: symmetry\<close>

text \<open>
  C5: for every tolerance \<open>k \<ge> 0\<close> and every pair of sequences, the program run with
  \<open>a\<close> as applicants and \<open>b\<close> as apartments prints the same count as the program run
  with \<open>b\<close> as applicants and \<open>a\<close> as apartments. It holds for both programs, and with
  wrap-around as well.
\<close>

theorem C5_symmetry:
  assumes "0 \<le>s k"
  shows "main2 a b k = main2 b a k \<and> main1 a b k = main1 b a k"
  using assms by (simp add: main1_def main2_def init_def loop1_swap loop2_swap)

theorem C5_symmetry_witness:
  "(0 :: int32) \<le>s 1 \<and> main2 [1, 5] [2, 6, 9] 1 = main2 [2, 6, 9] [1, 5] 1 \<and>
   main1 [1, 5] [2, 6, 9] 1 = main1 [2, 6, 9] [1, 5] 1"
proof -
  have h: "(0 :: int32) \<le>s 1" by (simp add: word_sle_eq)
  show ?thesis using C5_symmetry [OF h] h by blast
qed

subsection \<open>C6: permutation invariance\<close>

text \<open>
  C6: permuting the order in which the applicant values are given, or the order in
  which the apartment values are given, does not change the printed count, since both
  vectors are sorted before the loop.
\<close>

theorem C6_permutation_invariant:
  assumes "mset a = mset a'" and "mset b = mset b'"
  shows "main1 a b k = main1 a' b' k \<and> main2 a b k = main2 a' b' k"
  using assms by (simp add: main1_def main2_def sort32_cong [of a a'] sort32_cong [of b b'])

theorem C6_permutation_invariant_witness:
  "mset [5, 1 :: int32] = mset [1, 5] \<and> mset [6, 2 :: int32] = mset [2, 6] \<and>
   main1 [5, 1] [6, 2] 1 = main1 [1, 5] [2, 6] 1 \<and> main2 [5, 1] [6, 2] 1 = main2 [1, 5] [2, 6] 1"
proof -
  have h1: "mset [5, 1 :: int32] = mset [1, 5]" by (simp add: add_mset_commute)
  have h2: "mset [6, 2 :: int32] = mset [2, 6]" by (simp add: add_mset_commute)
  show ?thesis using C6_permutation_invariant [OF h1 h2] h1 h2 by blast
qed

subsection \<open>C7: termination\<close>

text \<open>
  C7: for every input the loop terminates: run as a \<open>while\<close> loop that may diverge it
  returns a state, in which the loop test is false; each iteration moves no index back
  and moves \<open>i\<close> or \<open>j\<close> (or both) forward; and the loop runs its body at most \<open>n + m\<close>
  times.
\<close>

theorem C7_termination:
  "while_option (loop_cond a b) (body1 a b k) init = Some (loop1 a b k init) \<and>
   while_option (loop_cond a b) (body2 a b k) init = Some (loop2 a b k init) \<and>
   \<not> loop_cond a b (loop1 a b k init) \<and> \<not> loop_cond a b (loop2 a b k init) \<and>
   (\<forall>s. loop_cond a b s \<longrightarrow> advances s (body1 a b k s) \<and> advances s (body2 a b k s)) \<and>
   loop1 a b k init = (body1 a b k ^^ iters1 a b k init) init \<and>
   loop2 a b k init = (body2 a b k ^^ iters2 a b k init) init \<and>
   iters1 a b k init \<le> length a + length b \<and> iters2 a b k init \<le> length a + length b"
proof -
  have "iters1 a b k init \<le> length a + length b" "iters2 a b k init \<le> length a + length b"
    using iters1_bound [of a b k 0 0 0] iters2_bound [of a b k 0 0 0] by (simp_all add: init_def)
  moreover have "\<forall>s. loop_cond a b s \<longrightarrow> advances s (body1 a b k s) \<and> advances s (body2 a b k s)"
    using body1_advances body2_advances by blast
  ultimately show ?thesis
    using loop1_funpow [of a b k init] loop2_funpow [of a b k init]
      loop1_while [of a b k init] loop2_while [of a b k init]
      loop1_exit [of a b k init] loop2_exit [of a b k init]
    by blast
qed

theorem C7_termination_witness:
  "loop_cond [1, 5] [2, 6] init \<and> advances init (body1 [1, 5] [2, 6] 1 init) \<and>
   advances init (body2 [1, 5] [2, 6] 1 init) \<and>
   while_option (loop_cond [1, 5] [2, 6]) (body2 [1, 5] [2, 6] 1) init = Some (2, 2, 2)"
proof -
  have h: "loop_cond [1, 5] [2, 6] init" by (simp add: init_def)
  have "loop2 [1, 5] [2, 6] 1 init = (2, 2, 2)"
    by (simp add: init_def abs32_def word_sle_eq word_sless_alt loop2.simps)
  moreover note t = C7_termination [of "[1, 5]" "[2, 6]" 1]
  moreover from t h have "advances init (body1 [1, 5] [2, 6] 1 init) \<and> advances init (body2 [1, 5] [2, 6] 1 init)"
    by blast
  moreover from t have "while_option (loop_cond [1, 5] [2, 6]) (body2 [1, 5] [2, 6] 1) init = Some (loop2 [1, 5] [2, 6] 1 init)"
    by blast
  ultimately show ?thesis using h by simp
qed

subsection \<open>C8: empty input\<close>

text \<open>
  C8: for every tolerance \<open>k\<close>, if the applicant sequence is empty or the apartment
  sequence is empty, the program prints 0.
\<close>

theorem C8_empty_input:
  assumes "a = [] \<or> b = []"
  shows "main2 a b k = 0 \<and> main1 a b k = 0"
proof -
  have "sort32 a = [] \<or> sort32 b = []"
    using assms length_sort32 [of a] length_sort32 [of b] by auto
  then show ?thesis by (simp add: main1_def main2_def init_def loop1_empty loop2_empty)
qed

theorem C8_empty_input_witness:
  "([] = ([] :: int32 list) \<or> [2, 6] = ([] :: int32 list)) \<and> main2 [] [2, 6] 1 = 0 \<and> main1 [] [2, 6] 1 = 0"
  using C8_empty_input [of "[]" "[2, 6]" 1] by simp

subsection \<open>C9: an example\<close>

text \<open>
  C9: on the input \<open>n = 2\<close>, \<open>m = 2\<close>, \<open>k = 1\<close>, applicants \<open>[1, 5]\<close>, apartments \<open>[2, 6]\<close>
  the program prints 2.
\<close>

theorem C9_example_two_pairs: "main2 [1, 5] [2, 6] 1 = 2 \<and> main1 [1, 5] [2, 6] 1 = 2"
  by (simp add: main1_def main2_def sort32_def init_def abs32_def word_sle_eq word_sless_alt
      loop1.simps loop2.simps)

subsection \<open>C10: exact arithmetic on values of at most 31 bits\<close>

text \<open>
  C10: for every input whose applicant and apartment values all lie within
  \<open>[- 2 ^ 30, 2 ^ 30 - 1]\<close>, at every pair of positions of the sorted vectors the 32-bit
  difference is the exact difference, the 32-bit absolute value is the exact one, and
  the test \<^verbatim>\<open>abs(a[i] - b[j]) <= k\<close> is the mathematical test \<open>\<bar>a[i] - b[j]\<bar> \<le> k\<close>; such
  an input has no overflow.
\<close>

theorem C10_exact_arithmetic:
  assumes "list_all in_range30 a" and "list_all in_range30 b"
    and "i < length a" and "j < length b"
  shows "sint (sort32 a ! i - sort32 b ! j) = sint (sort32 a ! i) - sint (sort32 b ! j) \<and>
         sint (abs32 (sort32 a ! i - sort32 b ! j)) = \<bar>sint (sort32 a ! i) - sint (sort32 b ! j)\<bar> \<and>
         (abs32 (sort32 a ! i - sort32 b ! j) \<le>s k) = (\<bar>sint (sort32 a ! i) - sint (sort32 b ! j)\<bar> \<le> sint k) \<and>
         no_overflow a b"
proof -
  have no: "no_overflow a b" using assms(1, 2) by (rule in_range30_no_overflow)
  then have "no_overflow (sort32 a) (sort32 b)" by (simp add: no_overflow_sort32)
  then have d: "\<bar>sint (sort32 a ! i) - sint (sort32 b ! j)\<bar> < 2 ^ 31"
    using assms(3, 4) by (intro no_overflow_nth) (simp_all add: length_sort32)
  have e: "sint (sort32 a ! i - sort32 b ! j) = sint (sort32 a ! i) - sint (sort32 b ! j)"
    using d by (rule sint_sub_exact)
  have "sint (abs32 (sort32 a ! i - sort32 b ! j)) = \<bar>sint (sort32 a ! i - sort32 b ! j)\<bar>"
    using d e by (intro sint_abs32) simp
  then show ?thesis using no e match_exact [OF d] by simp
qed

theorem C10_exact_arithmetic_witness:
  "list_all in_range30 [1, 5] \<and> list_all in_range30 [2, 6] \<and> (0 :: nat) < length [1, 5 :: int32] \<and>
   (1 :: nat) < length [2, 6 :: int32] \<and>
   sint (sort32 [1, 5] ! 0 - sort32 [2, 6] ! 1) = sint (sort32 [1, 5] ! 0) - sint (sort32 [2, 6] ! 1)"
proof -
  have h1: "list_all in_range30 [1, 5]" by (simp add: in_range30_def)
  have h2: "list_all in_range30 [2, 6]" by (simp add: in_range30_def)
  have h3: "(0 :: nat) < length [1, 5 :: int32]" by simp
  have h4: "(1 :: nat) < length [2, 6 :: int32]" by simp
  show ?thesis using C10_exact_arithmetic [OF h1 h2 h3 h4] h1 h2 h3 h4 by blast
qed

end
